theory Spec2Isabelle
  imports Main "HOL-Library.AList"
begin

section \<open>JavaScript values\<close>

text \<open>
  Thrown values, query objects and option objects of \<^verbatim>\<open>create-contentful-api.ts\<close> are
  plain JavaScript values. An object is an association list from property names to
  values; the first binding of a name is the one a property read sees.
\<close>

datatype jv =
    JUndefined
  | JNull
  | JBool bool
  | JNum int
  | JStr string
  | JArr "jv list"
  | JObj "(string \<times> jv) list"

text \<open>The truthiness test of \<^verbatim>\<open>if (x)\<close> and \<^verbatim>\<open>x && y\<close>.\<close>

fun truthy :: "jv \<Rightarrow> bool" where
  "truthy JUndefined = False"
| "truthy JNull = False"
| "truthy (JBool b) = b"
| "truthy (JNum n) = (n \<noteq> 0)"
| "truthy (JStr s) = (s \<noteq> [])"
| "truthy (JArr xs) = True"
| "truthy (JObj kvs) = True"

definition TypeError :: jv where
  "TypeError = JObj [(''name'', JStr ''TypeError'')]"

text \<open>
  The property read \<^verbatim>\<open>x.p\<close>: it throws a TypeError on \<^verbatim>\<open>undefined\<close> and \<^verbatim>\<open>null\<close>,
  gives \<^verbatim>\<open>undefined\<close> for a property that is not there, and the value otherwise.
\<close>

fun read_prop :: "jv \<Rightarrow> string \<Rightarrow> jv + jv" where
  "read_prop JUndefined p = Inl TypeError"
| "read_prop JNull p = Inl TypeError"
| "read_prop (JObj kvs) p = Inr (case map_of kvs p of None \<Rightarrow> JUndefined | Some v \<Rightarrow> v)"
| "read_prop x p = Inr JUndefined"

definition has_prop :: "jv \<Rightarrow> string \<Rightarrow> bool" where
  "has_prop x p = (case x of JObj kvs \<Rightarrow> p \<in> set (map fst kvs) | _ \<Rightarrow> False)"

text \<open>
  Object spread \<^verbatim>\<open>{ ...a, ...b }\<close>: the properties of \<^verbatim>\<open>b\<close> overwrite those of
  \<^verbatim>\<open>a\<close> in place, new ones are appended.
\<close>

type_synonym obj = "(string \<times> jv) list"

definition spread :: "obj \<Rightarrow> obj \<Rightarrow> obj" where
  "spread a b = fold (\<lambda>kv acc. AList.update (fst kv) (snd kv) acc) b a"

section \<open>Collaborators and configuration\<close>

text \<open>
  \<^verbatim>\<open>getGlobalOptions\<close> (from \<^verbatim>\<open>./create-global-options\<close>) returns the client's
  configuration; the fields below are the ones the API reads.
\<close>

record global_options =
  environment :: string
  space :: string
  spaceBaseUrl :: "string option"
  environmentBaseUrl :: "string option"
  resolveLinks :: bool
  removeUnresolved :: bool

text \<open>
  The shared \<^verbatim>\<open>http\<close> instance: its mutable \<^verbatim>\<open>defaults.baseURL\<close>, and the requests
  sent through it so far (url and request config, oldest first).
\<close>

record 'cfg http_instance =
  defaults_baseURL :: "string option"
  requests :: "(string \<times> 'cfg option) list"

record 'a response =
  data :: 'a

text \<open>
  The parameters of \<^verbatim>\<open>createContentfulApi\<close> and the imported helpers whose code is
  outside this file. The transport \<^verbatim>\<open>http.get\<close> sees the instance it is called on and
  either rejects with a thrown value or resolves with a response.
\<close>

record ('cfg, 'a, 's) client =
  http_get :: "'cfg http_instance \<Rightarrow> string \<Rightarrow> 'cfg option \<Rightarrow> jv + 'a response"
  getGlobalOptions :: "obj option \<Rightarrow> global_options"
  createRequestConfig :: "obj \<Rightarrow> 'cfg"
  normalizeSelect :: "obj \<Rightarrow> obj"
  pagedSync :: "'cfg http_instance \<Rightarrow> obj \<Rightarrow> obj \<Rightarrow> (jv + 's) \<times> 'cfg http_instance"

section \<open>Errors\<close>

text \<open>\<^verbatim>\<open>new Error(message)\<close>.\<close>

definition Error :: "string \<Rightarrow> jv" where
  "Error message = JObj [(''message'', JStr message)]"

text \<open>\<^verbatim>\<open>class NotFoundError extends Error\<close>, lines 241-258.\<close>

definition NotFoundError :: "string \<Rightarrow> string \<Rightarrow> string \<Rightarrow> jv" where
  "NotFoundError ident env sp =
     JObj [(''message'', JStr ''The resource could not be found.''),
           (''sys'', JObj [(''type'', JStr ''Error''), (''id'', JStr ''NotFound'')]),
           (''details'', JObj [(''type'', JStr ''Entry''),
                               (''id'', JStr ident),
                               (''environment'', JStr env),
                               (''space'', JStr sp)])]"

text \<open>
  \<^verbatim>\<open>const notFoundError = (id = 'unknown') => ...\<close>: the default applies when the
  argument is \<^verbatim>\<open>undefined\<close> (here \<open>None\<close>).
\<close>

definition notFoundError :: "('cfg, 'a, 's) client \<Rightarrow> string option \<Rightarrow> jv" where
  "notFoundError c ident =
     NotFoundError (case ident of None \<Rightarrow> ''unknown'' | Some i \<Rightarrow> i)
       (environment (getGlobalOptions c None)) (space (getGlobalOptions c None))"

text \<open>
  \<^verbatim>\<open>errorHandler(error): never\<close>, lines 269-279. It always throws; the result is the
  thrown value.
\<close>

definition errorHandler :: "jv \<Rightarrow> jv" where
  "errorHandler error =
     (case read_prop error ''data'' of
        Inl t \<Rightarrow> t
      | Inr d \<Rightarrow>
          if truthy d then d
          else (case read_prop error ''response'' of
                  Inl t \<Rightarrow> t
                | Inr r \<Rightarrow>
                    if truthy r then
                      (case read_prop r ''data'' of
                         Inl t \<Rightarrow> t
                       | Inr rd \<Rightarrow> if truthy rd then rd else error)
                    else error))"

section \<open>The request function\<close>

datatype request_context = Space | Environment

fun context_name :: "request_context \<Rightarrow> string" where
  "context_name Space = ''space''"
| "context_name Environment = ''environment''"

definition endsWith :: "string \<Rightarrow> string \<Rightarrow> bool" where
  "endsWith s suffix = (length suffix \<le> length s \<and> drop (length s - length suffix) s = suffix)"

text \<open>
  The test \<^verbatim>\<open>!x\<close> for a value that is a string or \<^verbatim>\<open>undefined\<close> (\<open>None\<close>): it holds
  for \<^verbatim>\<open>undefined\<close> and for the empty string.
\<close>

fun falsy :: "string option \<Rightarrow> bool" where
  "falsy None = True"
| "falsy (Some s) = (s = [])"

text \<open>\<^verbatim>\<open>http.get(url, config)\<close> on the shared instance, which records the request.\<close>

definition send :: "('cfg, 'a, 's) client \<Rightarrow> string \<Rightarrow> 'cfg option \<Rightarrow> 'cfg http_instance
    \<Rightarrow> (jv + 'a response) \<times> 'cfg http_instance" where
  "send c url config h = (http_get c h url config, h\<lparr>requests := requests h @ [(url, config)]\<rparr>)"

text \<open>
  \<^verbatim>\<open>async function get<T>({ context, path, config })\<close>, lines 287-305. A rejected
  promise is \<open>Inl\<close> of the thrown value.
\<close>

definition get :: "('cfg, 'a, 's) client \<Rightarrow> request_context \<Rightarrow> string \<Rightarrow> 'cfg option \<Rightarrow> 'cfg http_instance
    \<Rightarrow> (jv + 'a) \<times> 'cfg http_instance" where
  "get c ctx path config h =
     (let baseUrl = (if ctx = Space then spaceBaseUrl (getGlobalOptions c None)
                     else environmentBaseUrl (getGlobalOptions c None))
      in if falsy baseUrl then
           (Inl (Error (''Please define baseUrl for '' @ context_name ctx)), h)
         else
           (let b = the baseUrl;
                baseUrl' = (if \<not> endsWith b ''/'' then b @ ''/'' else b)
            in case send c (baseUrl' @ path) config h of
                 (Inr response, h') \<Rightarrow> (Inr (data response), h')
               | (Inl error, h') \<Rightarrow> (Inl (errorHandler error), h')))"

section \<open>API methods without link resolution\<close>

text \<open>
  Lines 307-325 and 365-389. Every method takes the http instance and returns it with
  its outcome. Where the source has a default for a \<^verbatim>\<open>query\<close> or \<^verbatim>\<open>options\<close> argument
  (\<^verbatim>\<open>{}\<close>, \<^verbatim>\<open>{ paginate: true }\<close>), a caller that omits the argument passes the default.
\<close>

definition getSpace :: "('cfg, 'a, 's) client \<Rightarrow> 'cfg http_instance \<Rightarrow> (jv + 'a) \<times> 'cfg http_instance" where
  "getSpace c h = get c Space '''' None h"

definition getContentType :: "('cfg, 'a, 's) client \<Rightarrow> string \<Rightarrow> 'cfg http_instance
    \<Rightarrow> (jv + 'a) \<times> 'cfg http_instance" where
  "getContentType c ident h = get c Environment (''content_types/'' @ ident) None h"

definition getContentTypes :: "('cfg, 'a, 's) client \<Rightarrow> 'cfg http_instance
    \<Rightarrow> (jv + 'a) \<times> 'cfg http_instance" where
  "getContentTypes c h = get c Environment ''content_types'' (Some (createRequestConfig c [])) h"

definition getAsset :: "('cfg, 'a, 's) client \<Rightarrow> string \<Rightarrow> obj \<Rightarrow> 'cfg http_instance
    \<Rightarrow> (jv + 'a) \<times> 'cfg http_instance" where
  "getAsset c ident query h =
     get c Environment (''assets/'' @ ident) (Some (createRequestConfig c (normalizeSelect c query))) h"

definition getAssets :: "('cfg, 'a, 's) client \<Rightarrow> obj \<Rightarrow> 'cfg http_instance
    \<Rightarrow> (jv + 'a) \<times> 'cfg http_instance" where
  "getAssets c query h =
     get c Environment ''assets'' (Some (createRequestConfig c (normalizeSelect c query))) h"

definition getLocales :: "('cfg, 'a, 's) client \<Rightarrow> obj \<Rightarrow> 'cfg http_instance
    \<Rightarrow> (jv + 'a) \<times> 'cfg http_instance" where
  "getLocales c query h =
     get c Environment ''locales'' (Some (createRequestConfig c (normalizeSelect c query))) h"

text \<open>\<^verbatim>\<open>switchToEnvironment(http)\<close>, lines 406-408.\<close>

definition switchToEnvironment :: "('cfg, 'a, 's) client \<Rightarrow> 'cfg http_instance \<Rightarrow> 'cfg http_instance" where
  "switchToEnvironment c h = h\<lparr>defaults_baseURL := environmentBaseUrl (getGlobalOptions c None)\<rparr>"

text \<open>\<^verbatim>\<open>async function sync(query = {}, options = { paginate: true })\<close>, lines 392-396.\<close>

definition sync :: "('cfg, 'a, 's) client \<Rightarrow> obj \<Rightarrow> obj \<Rightarrow> 'cfg http_instance
    \<Rightarrow> (jv + 's) \<times> 'cfg http_instance" where
  "sync c query options h =
     (let g = getGlobalOptions c (Some query);
          h' = switchToEnvironment c h
      in pagedSync c h' query
           (spread [(''resolveLinks'', JBool (resolveLinks g)),
                    (''removeUnresolved'', JBool (removeUnresolved g))] options))"

section \<open>The link resolver\<close>

text \<open>
  Modelled from the spec: the data model of the link resolver, whose code
  (\<^verbatim>\<open>./utils/resolve-circular\<close>) is not part of the source at hand. A field value is a
  tagged union: a flat value, a reference marker \<open>(linkType, id)\<close>, an ordered sequence,
  a locale-keyed mapping, or a direct reference to an item object, given by the address
  of that object in the store.
\<close>

type_synonym ident = "string \<times> string"

datatype fval =
    Flat jv
  | Marker string string
  | Seq "fval list"
  | LocaleMap "(string \<times> fval) list"
  | Ref nat

text \<open>
  Modelled from the spec: a resolvable item, with identity \<open>(type, id)\<close> and a mapping
  from field names to values.
\<close>

record item =
  sys_type :: string
  sys_id :: string
  item_fields :: "(string \<times> fval) list"

definition key_of :: "item \<Rightarrow> ident" where
  "key_of it = (sys_type it, sys_id it)"

text \<open>
  Modelled from the spec: a response payload. The item objects live in a store; the
  \<open>items\<close> sequence and the buckets of the \<open>includes\<close> table hold addresses of item
  objects, so that two references to one object are the same address. The metadata
  (pagination totals, sync token) is passed through.
\<close>

record payload =
  store :: "item list"
  items :: "nat list"
  includes_table :: "(string \<times> nat list) list"
  metadata :: obj

type_synonym index = "(ident \<times> nat) list"

text \<open>
  Modelled from the spec: step 1 of the algorithm, the lookup index from \<open>(kind, id)\<close> to
  the item, merging \<open>items\<close> and every bucket of \<open>includes\<close>. A lookup takes the first
  entry for a key, so the entries of \<open>items\<close> take precedence.
\<close>

definition buildIndex :: "payload \<Rightarrow> index" where
  "buildIndex p =
     map (\<lambda>a. (key_of (store p ! a), a))
       (filter (\<lambda>a. a < length (store p)) (items p @ concat (map snd (includes_table p))))"

text \<open>
  The state of one resolution: the item objects, and the cache of the identities whose
  fields have been fully walked.
\<close>

record rstate =
  heap :: "item list"
  resolved :: "ident list"

text \<open>The number of indexed identities that are not on the active path.\<close>

definition todo :: "index \<Rightarrow> ident list \<Rightarrow> nat" where
  "todo idx path = card (fst ` set idx - set path)"

lemma todo_less:
  assumes "map_of idx k = Some a" and "k \<notin> set path"
  shows "todo idx (k # path) < todo idx path"
proof -
  from assms(1) have k: "k \<in> fst ` set idx"
    by (metis map_of_SomeD fst_conv image_eqI)
  have "fst ` set idx - set (k # path) \<subset> fst ` set idx - set path"
    using k assms(2) by auto
  then show ?thesis
    unfolding todo_def by (intro psubset_card_mono) auto
qed

text \<open>
  Modelled from the spec: step 2 and 3 of the algorithm. \<open>path\<close> is the set of
  identities being expanded on the active path. A walked value is \<open>None\<close> when its slot
  is to be removed. A marker with no match follows the \<open>removeUnresolved\<close> policy
  \<open>rm\<close>; a marker whose target is on the active path or in the cache links to the item
  of the index without descending; any other marker descends into its target first.
  \<open>resolveItem\<close> walks the fields of the item at address \<open>a\<close>, stores them in the item
  and caches its identity \<open>k\<close>. The fields are stored when the walk of the item is
  complete; until then the identity is on the active path, so no walk reads them.
\<close>

function resolveValue :: "index \<Rightarrow> bool \<Rightarrow> ident list \<Rightarrow> fval \<Rightarrow> rstate \<Rightarrow> fval option \<times> rstate"
  and resolveSeq :: "index \<Rightarrow> bool \<Rightarrow> ident list \<Rightarrow> fval list \<Rightarrow> rstate \<Rightarrow> fval list \<times> rstate"
  and resolveMapping :: "index \<Rightarrow> bool \<Rightarrow> ident list \<Rightarrow> (string \<times> fval) list \<Rightarrow> rstate
        \<Rightarrow> (string \<times> fval) list \<times> rstate"
  and resolveItem :: "index \<Rightarrow> bool \<Rightarrow> ident list \<Rightarrow> ident \<Rightarrow> nat \<Rightarrow> rstate \<Rightarrow> rstate"
where
  "resolveValue idx rm path (Flat x) st = (Some (Flat x), st)"
| "resolveValue idx rm path (Ref a) st = (Some (Ref a), st)"
| "resolveValue idx rm path (Marker k i) st =
     (case map_of idx (k, i) of
        None \<Rightarrow> (if rm then None else Some (Marker k i), st)
      | Some a \<Rightarrow>
          if (k, i) \<in> set path \<or> (k, i) \<in> set (resolved st) then (Some (Ref a), st)
          else (Some (Ref a), resolveItem idx rm path (k, i) a st))"
| "resolveValue idx rm path (Seq vs) st =
     (case resolveSeq idx rm path vs st of (vs', st') \<Rightarrow> (Some (Seq vs'), st'))"
| "resolveValue idx rm path (LocaleMap m) st =
     (case resolveMapping idx rm path m st of (m', st') \<Rightarrow> (Some (LocaleMap m'), st'))"
| "resolveSeq idx rm path [] st = ([], st)"
| "resolveSeq idx rm path (v # vs) st =
     (case resolveValue idx rm path v st of
        (r, st1) \<Rightarrow>
          (case resolveSeq idx rm path vs st1 of
             (rs, st2) \<Rightarrow> ((case r of None \<Rightarrow> rs | Some v' \<Rightarrow> v' # rs), st2)))"
| "resolveMapping idx rm path [] st = ([], st)"
| "resolveMapping idx rm path ((n, v) # m) st =
     (case resolveValue idx rm path v st of
        (r, st1) \<Rightarrow>
          (case resolveMapping idx rm path m st1 of
             (rs, st2) \<Rightarrow> ((case r of None \<Rightarrow> rs | Some v' \<Rightarrow> (n, v') # rs), st2)))"
| "resolveItem idx rm path k a st =
     (if a < length (heap st) then
        (case resolveMapping idx rm (k # path) (item_fields (heap st ! a)) st of
           (fs', st1) \<Rightarrow>
             st1\<lparr>heap := (heap st1)[a := (heap st1 ! a)\<lparr>item_fields := fs'\<rparr>],
                 resolved := k # resolved st1\<rparr>)
      else st)"
  by pat_completeness auto

termination resolveValue
  apply (relation "inv_image (less_than <*lex*> less_than <*lex*> less_than)
     (\<lambda>x. case x of
         Inl (Inl (idx, rm, path, v, st)) \<Rightarrow> (todo idx path, 0::nat, size v)
       | Inl (Inr (idx, rm, path, vs, st)) \<Rightarrow> (todo idx path, 0, size_list size vs)
       | Inr (Inl (idx, rm, path, m, st)) \<Rightarrow>
           (todo idx path, 0, size_list (size_prod (\<lambda>x. 0) size) m)
       | Inr (Inr (idx, rm, path, k, a, st)) \<Rightarrow> (todo idx (k # path), 1, 0))")
  apply (auto simp: todo_less)
  done

text \<open>
  Modelled from the spec: step 2, for every item of \<open>items\<close>, with an empty active path;
  an item whose identity is in the cache is not walked again.
\<close>

definition resolveTop :: "index \<Rightarrow> bool \<Rightarrow> nat \<Rightarrow> rstate \<Rightarrow> rstate" where
  "resolveTop idx rm a st =
     (if a < length (heap st) then
        (let k = key_of (heap st ! a)
         in if k \<in> set (resolved st) then st else resolveItem idx rm [] k a st)
      else st)"

text \<open>
  Modelled from the spec: one resolution pass over a payload, from the store of the
  payload and an empty cache.
\<close>

definition resolveAll :: "payload \<Rightarrow> bool \<Rightarrow> rstate" where
  "resolveAll p rm = fold (resolveTop (buildIndex p) rm) (items p) \<lparr>heap = store p, resolved = []\<rparr>"

text \<open>
  Modelled from the spec: the contract \<open>resolve(payload, { removeUnresolved })\<close>. Step 4:
  the \<open>items\<close> sequence and the metadata of the payload are returned as they are, over the
  store of resolved items.
\<close>

definition resolve :: "payload \<Rightarrow> bool \<Rightarrow> payload" where
  "resolve p rm = p\<lparr>store := heap (resolveAll p rm)\<rparr>"

text \<open>
  Modelled from the spec: the public resolution entry point \<^verbatim>\<open>resolveCircular\<close>, imported
  from \<^verbatim>\<open>./utils/resolve-circular\<close>, with the options \<^verbatim>\<open>{ resolveLinks, removeUnresolved }\<close>.
  When \<^verbatim>\<open>resolveLinks\<close> is false the resolver is skipped and the payload is returned
  unchanged.
\<close>

definition resolveCircular :: "payload \<Rightarrow> bool \<Rightarrow> bool \<Rightarrow> payload" where
  "resolveCircular raw resolveLinks' removeUnresolved' =
     (if resolveLinks' then resolve raw removeUnresolved' else raw)"

section \<open>API methods with link resolution\<close>

text \<open>\<^verbatim>\<open>async function getEntries(query = {})\<close>, lines 348-362.\<close>

definition getEntries :: "('cfg, payload, 's) client \<Rightarrow> obj \<Rightarrow> 'cfg http_instance
    \<Rightarrow> (jv + payload) \<times> 'cfg http_instance" where
  "getEntries c query h =
     (let g = getGlobalOptions c (Some [])
      in case get c Environment ''entries''
                (Some (createRequestConfig c (normalizeSelect c query))) h of
           (Inr entries, h') \<Rightarrow>
             (Inr (resolveCircular entries (resolveLinks g) (removeUnresolved g)), h')
         | (Inl error, h') \<Rightarrow> (Inl (errorHandler error), h'))"

text \<open>
  \<^verbatim>\<open>async function getEntry(id, query = {})\<close>, lines 328-345. The id is a string, or
  \<^verbatim>\<open>undefined\<close> (\<open>None\<close>) when the caller gives none, the case that the default of
  \<^verbatim>\<open>notFoundError\<close> is there for. The entry returned is \<^verbatim>\<open>response.items[0]\<close>: an
  address, with the store it points into.
\<close>

type_synonym entry = "item list \<times> nat"

definition getEntry :: "('cfg, payload, 's) client \<Rightarrow> string option \<Rightarrow> obj \<Rightarrow> 'cfg http_instance
    \<Rightarrow> (jv + entry) \<times> 'cfg http_instance" where
  "getEntry c ident query h =
     (if falsy ident then (Inl (notFoundError c ident), h)
      else case getEntries c (spread [(''sys.id'', JStr (the ident))] query) h of
             (Inr response, h') \<Rightarrow>
               if length (items response) > 0
               then (Inr (store response, items response ! 0), h')
               else (Inl (errorHandler (notFoundError c ident)), h')
           | (Inl error, h') \<Rightarrow> (Inl (errorHandler error), h'))"

text \<open>\<^verbatim>\<open>function parseEntries(data)\<close>, lines 398-401.\<close>

definition parseEntries :: "('cfg, payload, 's) client \<Rightarrow> payload \<Rightarrow> payload" where
  "parseEntries c raw =
     (let g = getGlobalOptions c (Some [])
      in resolveCircular raw (resolveLinks g) (removeUnresolved g))"

section \<open>The resolved graph\<close>

text \<open>
  Modelled from the spec: what resolution does to one field value, stated without the
  store. A marker with a match in the index becomes the reference to the item of the
  index; a marker with no match is dropped from its sequence or mapping when
  \<open>removeUnresolved\<close> holds and stays as it is otherwise; every other value keeps its
  shape.
\<close>

fun substValue :: "index \<Rightarrow> bool \<Rightarrow> fval \<Rightarrow> fval option"
  and substSeq :: "index \<Rightarrow> bool \<Rightarrow> fval list \<Rightarrow> fval list"
  and substMapping :: "index \<Rightarrow> bool \<Rightarrow> (string \<times> fval) list \<Rightarrow> (string \<times> fval) list"
where
  "substValue idx rm (Flat x) = Some (Flat x)"
| "substValue idx rm (Ref a) = Some (Ref a)"
| "substValue idx rm (Marker k i) =
     (case map_of idx (k, i) of
        None \<Rightarrow> if rm then None else Some (Marker k i)
      | Some a \<Rightarrow> Some (Ref a))"
| "substValue idx rm (Seq vs) = Some (Seq (substSeq idx rm vs))"
| "substValue idx rm (LocaleMap m) = Some (LocaleMap (substMapping idx rm m))"
| "substSeq idx rm [] = []"
| "substSeq idx rm (v # vs) =
     (case substValue idx rm v of None \<Rightarrow> substSeq idx rm vs | Some v' \<Rightarrow> v' # substSeq idx rm vs)"
| "substMapping idx rm [] = []"
| "substMapping idx rm ((n, v) # m) =
     (case substValue idx rm v of
        None \<Rightarrow> substMapping idx rm m
      | Some v' \<Rightarrow> (n, v') # substMapping idx rm m)"

text \<open>The identities of the markers that occur in a value.\<close>

fun markers :: "fval \<Rightarrow> ident set"
  and markersSeq :: "fval list \<Rightarrow> ident set"
  and markersMapping :: "(string \<times> fval) list \<Rightarrow> ident set"
where
  "markers (Flat x) = {}"
| "markers (Ref a) = {}"
| "markers (Marker k i) = {(k, i)}"
| "markers (Seq vs) = markersSeq vs"
| "markers (LocaleMap m) = markersMapping m"
| "markersSeq [] = {}"
| "markersSeq (v # vs) = markers v \<union> markersSeq vs"
| "markersMapping [] = {}"
| "markersMapping ((n, v) # m) = markers v \<union> markersMapping m"

text \<open>
  Modelled from the spec: the items of \<open>items\<close> are addressable and have pairwise
  different identities.
\<close>

definition distinct_items :: "payload \<Rightarrow> bool" where
  "distinct_items p =
     ((\<forall>a \<in> set (items p). a < length (store p))
      \<and> inj_on (\<lambda>a. key_of (store p ! a)) (set (items p)))"

text \<open>
  Modelled from the spec: the items reachable from \<open>items\<close> along markers that the
  index matches; these are the items whose markers the resolved graph replaces.
\<close>

inductive reachable :: "payload \<Rightarrow> nat \<Rightarrow> bool" for p where
  top: "a \<in> set (items p) \<Longrightarrow> reachable p a"
| link: "reachable p a \<Longrightarrow> k \<in> markersMapping (item_fields (store p ! a)) \<Longrightarrow>
         map_of (buildIndex p) k = Some b \<Longrightarrow> reachable p b"

section \<open>Invariants of the walk\<close>

text \<open>
  With respect to the store \<open>H0\<close> a resolution starts from: the index points at items
  of the identity it names; an item whose identity is cached holds its resolved fields
  and every other item is as it was; the markers of a cached item lead to identities
  that are cached or on the active path; and the cache has no identity twice.
\<close>

definition consistent :: "index \<Rightarrow> item list \<Rightarrow> bool" where
  "consistent idx H0 = (\<forall>k a. map_of idx k = Some a \<longrightarrow> a < length H0 \<and> key_of (H0 ! a) = k)"

definition walked_item :: "index \<Rightarrow> bool \<Rightarrow> item \<Rightarrow> item" where
  "walked_item idx rm it = it\<lparr>item_fields := substMapping idx rm (item_fields it)\<rparr>"

definition is_walked :: "index \<Rightarrow> item list \<Rightarrow> ident list \<Rightarrow> nat \<Rightarrow> bool" where
  "is_walked idx H0 done a = (key_of (H0 ! a) \<in> set done \<and> map_of idx (key_of (H0 ! a)) = Some a)"

definition heap_ok :: "index \<Rightarrow> bool \<Rightarrow> item list \<Rightarrow> rstate \<Rightarrow> bool" where
  "heap_ok idx rm H0 st =
     (length (heap st) = length H0
      \<and> (\<forall>a < length H0.
            heap st ! a = (if is_walked idx H0 (resolved st) a then walked_item idx rm (H0 ! a)
                           else H0 ! a)))"

definition closed :: "index \<Rightarrow> item list \<Rightarrow> ident list \<Rightarrow> rstate \<Rightarrow> bool" where
  "closed idx H0 path st =
     (\<forall>k \<in> set (resolved st). \<forall>a. map_of idx k = Some a \<longrightarrow>
        markersMapping (item_fields (H0 ! a)) \<inter> fst ` set idx \<subseteq> set (resolved st) \<union> set path)"

definition resolver_inv :: "index \<Rightarrow> bool \<Rightarrow> item list \<Rightarrow> ident list \<Rightarrow> rstate \<Rightarrow> bool" where
  "resolver_inv idx rm H0 path st =
     (consistent idx H0 \<and> heap_ok idx rm H0 st \<and> closed idx H0 path st
      \<and> distinct (resolved st) \<and> set (resolved st) \<subseteq> fst ` set idx)"

definition step :: "index \<Rightarrow> bool \<Rightarrow> item list \<Rightarrow> ident list \<Rightarrow> rstate \<Rightarrow> rstate \<Rightarrow> ident set \<Rightarrow> bool" where
  "step idx rm H0 path st st' ms =
     (resolver_inv idx rm H0 path st' \<and> set (resolved st) \<subseteq> set (resolved st')
      \<and> set (resolved st') \<inter> set path \<subseteq> set (resolved st)
      \<and> ms \<inter> fst ` set idx \<subseteq> set (resolved st') \<union> set path)"

section \<open>Auxiliary notions and sample data\<close>

text \<open>The value of a property, \<^verbatim>\<open>undefined\<close> where there is none to read.\<close>

definition member :: "jv \<Rightarrow> string \<Rightarrow> jv" where
  "member x p = (case read_prop x p of Inl t \<Rightarrow> JUndefined | Inr v \<Rightarrow> v)"

text \<open>A client with other values of the two link options, and the same configuration otherwise.\<close>

definition with_link_options :: "('cfg, 'a, 's) client \<Rightarrow> bool \<Rightarrow> bool \<Rightarrow> ('cfg, 'a, 's) client" where
  "with_link_options c rl ru =
     c\<lparr>getGlobalOptions := (\<lambda>q. (getGlobalOptions c q)\<lparr>resolveLinks := rl, removeUnresolved := ru\<rparr>)\<rparr>"

definition demo_options :: global_options where
  "demo_options = \<lparr>environment = ''master'', space = ''sp1'',
     spaceBaseUrl = Some ''https://cdn.example/spaces/sp1'',
     environmentBaseUrl = Some ''https://cdn.example/spaces/sp1/environments/master/'',
     resolveLinks = True, removeUnresolved = False\<rparr>"

definition empty_payload :: payload where
  "empty_payload = \<lparr>store = [], items = [], includes_table = [], metadata = [(''total'', JNum 0)]\<rparr>"

text \<open>A client whose transport answers every request with an empty collection.\<close>

definition demo_client :: "(obj, payload, unit) client" where
  "demo_client = \<lparr>http_get = (\<lambda>h url config. Inr \<lparr>data = empty_payload\<rparr>),
     getGlobalOptions = (\<lambda>q. demo_options),
     createRequestConfig = (\<lambda>q. q),
     normalizeSelect = (\<lambda>q. q),
     pagedSync = (\<lambda>h q opts. (Inr (), h))\<rparr>"

definition demo_http :: "obj http_instance" where
  "demo_http = \<lparr>defaults_baseURL = Some ''https://cdn.example/spaces/sp1'', requests = []\<rparr>"

definition no_base_client :: "(obj, payload, unit) client" where
  "no_base_client = demo_client\<lparr>getGlobalOptions := (\<lambda>q. demo_options\<lparr>spaceBaseUrl := None\<rparr>)\<rparr>"

text \<open>After the example in the documentation of \<^verbatim>\<open>parseEntries\<close>: an entry that links to an animal.\<close>

definition linked_payload :: payload where
  "linked_payload =
     \<lparr>store = [\<lparr>sys_type = ''Entry'', sys_id = ''e1'',
                 item_fields = [(''animal'', Marker ''Animal'' ''oink'')]\<rparr>,
               \<lparr>sys_type = ''Animal'', sys_id = ''oink'',
                 item_fields = [(''name'', Flat (JStr ''Pig''))]\<rparr>],
      items = [0], includes_table = [(''Animal'', [1])], metadata = [(''total'', JNum 1)]\<rparr>"

definition linked_client :: "(obj, payload, unit) client" where
  "linked_client = demo_client\<lparr>http_get := (\<lambda>h url config. Inr \<lparr>data = linked_payload\<rparr>)\<rparr>"

text \<open>Two entries that are each other's friend.\<close>

definition cyclic_payload :: payload where
  "cyclic_payload =
     \<lparr>store = [\<lparr>sys_type = ''Entry'', sys_id = ''A'',
                 item_fields = [(''name'', Flat (JStr ''a'')), (''friend'', Marker ''Entry'' ''B'')]\<rparr>,
               \<lparr>sys_type = ''Entry'', sys_id = ''B'',
                 item_fields = [(''friend'', Marker ''Entry'' ''A'')]\<rparr>],
      items = [0], includes_table = [(''Entry'', [1])], metadata = []\<rparr>"

text \<open>Two entries that link to the same animal, and an entry whose links have no target.\<close>

definition shared_payload :: payload where
  "shared_payload =
     \<lparr>store = [\<lparr>sys_type = ''Entry'', sys_id = ''e1'',
                 item_fields = [(''animal'', Marker ''Animal'' ''oink'')]\<rparr>,
               \<lparr>sys_type = ''Entry'', sys_id = ''e2'',
                 item_fields = [(''title'', Flat (JStr ''second'')), (''pet'', Marker ''Animal'' ''oink'')]\<rparr>,
               \<lparr>sys_type = ''Animal'', sys_id = ''oink'',
                 item_fields = [(''name'', Flat (JStr ''Pig'')),
                                (''friend'', Marker ''Animal'' ''groundhog'')]\<rparr>],
      items = [0, 1], includes_table = [(''Animal'', [2])], metadata = []\<rparr>"

definition unresolved_payload :: payload where
  "unresolved_payload =
     \<lparr>store = [\<lparr>sys_type = ''Entry'', sys_id = ''e1'',
                 item_fields = [(''title'', Flat (JStr ''first'')),
                                (''author'', Marker ''Entry'' ''gone''),
                                (''tags'', Seq [Marker ''Entry'' ''gone'', Flat (JStr ''x'')]),
                                (''pet'', LocaleMap [(''en-US'', Marker ''Entry'' ''gone''),
                                                    (''de-DE'', Flat (JStr ''y''))])]\<rparr>],
      items = [0], includes_table = [], metadata = []\<rparr>"

section \<open>Errors of the API methods\<close>

lemma errorHandler_NotFoundError: "errorHandler (NotFoundError i e s) = NotFoundError i e s"
  by (simp add: errorHandler_def NotFoundError_def)

text \<open>
  C2. When the entries query for \<^verbatim>\<open>'sys.id' = id\<close> resolves with a collection of
  zero items, \<^verbatim>\<open>getEntry(id)\<close> rejects with the NotFound error whose details carry the id
  and the configured environment and space; it does not resolve with a value.
\<close>

theorem getEntry_zero_items:
  assumes "ident \<noteq> []"
    and "getEntries c (spread [(''sys.id'', JStr ident)] query) h = (Inr response, h')"
    and "items response = []"
  shows "getEntry c (Some ident) query h =
           (Inl (NotFoundError ident (environment (getGlobalOptions c None))
                   (space (getGlobalOptions c None))), h')"
  using assms by (simp add: getEntry_def notFoundError_def errorHandler_NotFoundError)

lemma demo_getEntries:
  "getEntries demo_client (spread [(''sys.id'', JStr ''e1'')] []) demo_http =
     (Inr empty_payload,
      demo_http\<lparr>requests := [(''https://cdn.example/spaces/sp1/environments/master/entries'',
                               Some [(''sys.id'', JStr ''e1'')])]\<rparr>)"
  by (simp add: getEntries_def get_def send_def demo_client_def demo_options_def demo_http_def
      spread_def endsWith_def resolveCircular_def resolve_def resolveAll_def empty_payload_def)

theorem getEntry_zero_items_witness:
  "getEntry demo_client (Some ''e1'') [] demo_http =
     (Inl (NotFoundError ''e1'' ''master'' ''sp1''),
      demo_http\<lparr>requests := [(''https://cdn.example/spaces/sp1/environments/master/entries'',
                               Some [(''sys.id'', JStr ''e1'')])]\<rparr>)"
proof -
  have "''e1'' \<noteq> []" by simp
  from getEntry_zero_items [OF this demo_getEntries] show ?thesis
    by (simp add: empty_payload_def demo_client_def demo_options_def)
qed

text \<open>
  C9, as amended. For a falsy id, the empty string or \<^verbatim>\<open>undefined\<close>,
  \<^verbatim>\<open>getEntry(id)\<close> rejects with the NotFound error at once, and the http instance is as it
  was: no request was sent. \<^verbatim>\<open>details.id\<close> is the empty string for the empty string and
  \<^verbatim>\<open>'unknown'\<close> for \<^verbatim>\<open>undefined\<close>.
\<close>

theorem getEntry_falsy_id:
  assumes "falsy ident"
  shows "getEntry c ident query h =
           (Inl (NotFoundError (case ident of None \<Rightarrow> ''unknown'' | Some i \<Rightarrow> i)
                   (environment (getGlobalOptions c None))
                   (space (getGlobalOptions c None))), h)"
  using assms by (simp add: getEntry_def notFoundError_def)

theorem getEntry_falsy_id_witness:
  "falsy (Some []) \<and>
   getEntry demo_client (Some []) [] demo_http = (Inl (NotFoundError [] ''master'' ''sp1''), demo_http)"
proof -
  have f: "falsy (Some [])" by simp
  from getEntry_falsy_id [OF f, of demo_client "[]" demo_http] f show ?thesis
    by (simp add: demo_client_def demo_options_def)
qed

text \<open>
  C9 as stated fails: for the falsy id \<^verbatim>\<open>undefined\<close> the error carries \<^verbatim>\<open>details.id\<close>
  \<^verbatim>\<open>'unknown'\<close>, which is not that id.
\<close>

theorem getEntry_undefined_id_counterexample:
  "falsy None
   \<and> fst (getEntry demo_client None [] demo_http) = Inl (NotFoundError ''unknown'' ''master'' ''sp1'')
   \<and> member (member (NotFoundError ''unknown'' ''master'' ''sp1'') ''details'') ''id''
       = JStr ''unknown''
   \<and> JStr ''unknown'' \<noteq> JUndefined"
  by (simp add: getEntry_def notFoundError_def demo_client_def demo_options_def
      member_def NotFoundError_def)

text \<open>
  C7. When the base URL configured for the context of a request is missing
  (\<^verbatim>\<open>undefined\<close> or empty), \<^verbatim>\<open>get\<close> rejects with the configuration error and leaves the http instance as it was; the
  outcome is the same whatever the transport is, which is never invoked.
\<close>

theorem get_missing_baseUrl:
  assumes "falsy (if ctx = Space then spaceBaseUrl (getGlobalOptions c None)
                    else environmentBaseUrl (getGlobalOptions c None))"
  shows "get c ctx path config h =
           (Inl (Error (''Please define baseUrl for '' @ context_name ctx)), h)
         \<and> get (c\<lparr>http_get := t\<rparr>) ctx path config h = get c ctx path config h"
  using assms by (cases ctx) (simp_all add: get_def Let_def)

theorem get_missing_baseUrl_witness:
  "get no_base_client Space [] None demo_http =
     (Inl (Error ''Please define baseUrl for space''), demo_http)"
proof -
  have "falsy (if Space = Space then spaceBaseUrl (getGlobalOptions no_base_client None)
                 else environmentBaseUrl (getGlobalOptions no_base_client None))"
    by (simp add: no_base_client_def demo_client_def demo_options_def)
  from get_missing_baseUrl [OF this] show ?thesis by simp
qed

text \<open>
  C8, as amended. For every error value other than \<^verbatim>\<open>undefined\<close> and \<^verbatim>\<open>null\<close>,
  \<^verbatim>\<open>errorHandler\<close> throws \<^verbatim>\<open>error.data\<close> when that is truthy, otherwise
  \<^verbatim>\<open>error.response.data\<close> when \<^verbatim>\<open>error.response\<close> and it are truthy, otherwise the
  error itself; it never returns and never retries.
\<close>

theorem errorHandler_unwraps:
  assumes "error \<noteq> JUndefined" and "error \<noteq> JNull"
  shows "errorHandler error =
           (if truthy (member error ''data'') then member error ''data''
            else if truthy (member error ''response'')
                    \<and> truthy (member (member error ''response'') ''data'')
                 then member (member error ''response'') ''data''
                 else error)"
proof -
  obtain d where d: "read_prop error ''data'' = Inr d"
    using assms by (cases error) simp_all
  obtain r where r: "read_prop error ''response'' = Inr r"
    using assms by (cases error) simp_all
  show ?thesis
  proof (cases "truthy r")
    case True
    then obtain rd where rd: "read_prop r ''data'' = Inr rd"
      by (cases r) simp_all
    show ?thesis using d r rd True by (simp add: errorHandler_def member_def)
  next
    case False
    then show ?thesis using d r by (simp add: errorHandler_def member_def)
  qed
qed

theorem errorHandler_unwraps_witness:
  "errorHandler (JObj [(''response'', JObj [(''data'', JObj [(''message'', JStr ''Not Found'')])])])
     = JObj [(''message'', JStr ''Not Found'')]"
  using errorHandler_unwraps
    [of "JObj [(''response'', JObj [(''data'', JObj [(''message'', JStr ''Not Found'')])])]"]
  by (simp add: member_def)

text \<open>
  C8 as stated fails: an error that has a \<^verbatim>\<open>data\<close> property holding the empty string
  is thrown itself, not its \<^verbatim>\<open>data\<close>.
\<close>

theorem errorHandler_data_counterexample:
  "has_prop (JObj [(''data'', JStr [])]) ''data''
   \<and> errorHandler (JObj [(''data'', JStr [])]) \<noteq> JStr []"
  by (simp add: has_prop_def errorHandler_def)

section \<open>The shared http instance\<close>

lemma get_defaults: "defaults_baseURL (snd (get c ctx path config h)) = defaults_baseURL h"
  by (simp add: get_def send_def Let_def split: prod.splits sum.splits)

lemma getEntries_defaults: "defaults_baseURL (snd (getEntries c query h)) = defaults_baseURL h"
  using get_defaults [of c Environment "''entries''"
      "Some (createRequestConfig c (normalizeSelect c query))" h]
  by (auto simp: getEntries_def Let_def split: prod.splits sum.splits)

lemma getEntry_defaults: "defaults_baseURL (snd (getEntry c ident query h)) = defaults_baseURL h"
  using getEntries_defaults [of c "spread [(''sys.id'', JStr (the ident))] query" h]
  by (auto simp: getEntry_def split: prod.splits sum.splits)

text \<open>
  C6, as amended. Every method other than \<^verbatim>\<open>sync\<close> leaves \<^verbatim>\<open>http.defaults.baseURL\<close> of
  the shared instance as it was; \<^verbatim>\<open>sync\<close> sets it to the configured environment base
  URL and hands the instance so changed to the pagination driver.
\<close>

theorem http_defaults_frame:
  "defaults_baseURL (snd (getSpace c h)) = defaults_baseURL h
   \<and> defaults_baseURL (snd (getContentType c ident h)) = defaults_baseURL h
   \<and> defaults_baseURL (snd (getContentTypes c h)) = defaults_baseURL h
   \<and> defaults_baseURL (snd (getEntry c entryId query h)) = defaults_baseURL h
   \<and> defaults_baseURL (snd (getEntries c query h)) = defaults_baseURL h
   \<and> defaults_baseURL (snd (getAsset c ident query h)) = defaults_baseURL h
   \<and> defaults_baseURL (snd (getAssets c query h)) = defaults_baseURL h
   \<and> defaults_baseURL (snd (getLocales c query h)) = defaults_baseURL h
   \<and> sync c query options h =
       pagedSync c (h\<lparr>defaults_baseURL := environmentBaseUrl (getGlobalOptions c None)\<rparr>) query
         (spread [(''resolveLinks'', JBool (resolveLinks (getGlobalOptions c (Some query)))),
                  (''removeUnresolved'', JBool (removeUnresolved (getGlobalOptions c (Some query))))]
            options)"
  by (simp add: getSpace_def getContentType_def getContentTypes_def getAsset_def getAssets_def
      getLocales_def get_defaults getEntries_defaults getEntry_defaults sync_def
      switchToEnvironment_def Let_def)

text \<open>
  C6 as stated fails: a call of \<^verbatim>\<open>sync\<close> changes \<^verbatim>\<open>http.defaults.baseURL\<close> of the
  instance that every later call sends its request through.
\<close>

theorem sync_switches_baseURL_counterexample:
  "defaults_baseURL (snd (sync demo_client [] [(''paginate'', JBool True)] demo_http))
     \<noteq> defaults_baseURL demo_http"
  by (simp add: sync_def switchToEnvironment_def demo_client_def demo_options_def demo_http_def)

section \<open>Methods that skip the resolver\<close>

text \<open>
  C10. When the transport resolves with a response, \<^verbatim>\<open>getAssets\<close> and \<^verbatim>\<open>getAsset\<close>
  resolve with its body as it is, whatever the options \<^verbatim>\<open>resolveLinks\<close> and
  \<^verbatim>\<open>removeUnresolved\<close> are.
\<close>

theorem assets_bypass_resolver:
  assumes "\<not> falsy (environmentBaseUrl (getGlobalOptions c None))"
    and "\<forall>url config. http_get c h url config = Inr r"
  shows "fst (getAssets (with_link_options c rl ru) query h) = Inr (data r)
         \<and> fst (getAsset (with_link_options c rl ru) ident query h) = Inr (data r)"
  using assms
  by (simp add: getAssets_def getAsset_def get_def send_def with_link_options_def Let_def)

theorem assets_bypass_resolver_witness:
  "fst (getAssets (with_link_options linked_client True True) [] demo_http) = Inr linked_payload
   \<and> fst (getAsset (with_link_options linked_client True True) ''a1'' [] demo_http) = Inr linked_payload"
proof -
  have 1: "\<not> falsy (environmentBaseUrl (getGlobalOptions linked_client None))"
    by (simp add: linked_client_def demo_client_def demo_options_def)
  have 2: "\<forall>url config. http_get linked_client demo_http url config = Inr \<lparr>data = linked_payload\<rparr>"
    by (simp add: linked_client_def)
  from assets_bypass_resolver [OF 1 2] show ?thesis by simp
qed

text \<open>
  C1. With \<^verbatim>\<open>resolveLinks = false\<close>, \<^verbatim>\<open>parseEntries\<close> returns the payload it is given,
  and \<^verbatim>\<open>getEntries\<close> resolves with the payload that \<^verbatim>\<open>get\<close> delivered: no item is
  rewritten.
\<close>

theorem resolveLinks_false_unchanged:
  assumes "\<not> resolveLinks (getGlobalOptions c (Some []))"
  shows "parseEntries c raw = raw
         \<and> (\<forall>entries h'.
               get c Environment ''entries''
                 (Some (createRequestConfig c (normalizeSelect c query))) h = (Inr entries, h')
               \<longrightarrow> getEntries c query h = (Inr entries, h'))"
  using assms by (simp add: parseEntries_def getEntries_def resolveCircular_def Let_def)

lemma linked_get:
  "get (with_link_options linked_client False True) Environment ''entries''
      (Some (createRequestConfig (with_link_options linked_client False True)
               (normalizeSelect (with_link_options linked_client False True) []))) demo_http
    = (Inr linked_payload,
       demo_http\<lparr>requests := [(''https://cdn.example/spaces/sp1/environments/master/entries'',
                               Some [])]\<rparr>)"
  by (simp add: get_def send_def with_link_options_def linked_client_def demo_client_def
      demo_options_def demo_http_def endsWith_def)

theorem resolveLinks_false_unchanged_witness:
  "parseEntries (with_link_options linked_client False True) linked_payload = linked_payload
   \<and> getEntries (with_link_options linked_client False True) [] demo_http
       = (Inr linked_payload,
          demo_http\<lparr>requests := [(''https://cdn.example/spaces/sp1/environments/master/entries'',
                                  Some [])]\<rparr>)"
proof -
  have "\<not> resolveLinks (getGlobalOptions (with_link_options linked_client False True) (Some []))"
    by (simp add: with_link_options_def)
  from resolveLinks_false_unchanged [OF this, of linked_payload "[]" demo_http] linked_get
  show ?thesis by simp
qed

section \<open>Correctness of the link resolver\<close>

text \<open>The values that the walk returns do not depend on the state it runs in.\<close>

lemma resolve_values:
  "fst (resolveValue idx rm path v st) = substValue idx rm v"
  "fst (resolveSeq idx rm path vs st) = substSeq idx rm vs"
  "fst (resolveMapping idx rm path m st) = substMapping idx rm m"
  "\<not> a < length (heap st) \<Longrightarrow> resolveItem idx rm path k a st = st"
  by (induction idx rm path v st and idx rm path vs st and idx rm path m st and idx rm path k a st
      rule: resolveValue_resolveSeq_resolveMapping_resolveItem.induct)
     (auto split: option.splits prod.splits)

lemma step_refl: "resolver_inv idx rm H0 path st \<Longrightarrow> ms \<inter> fst ` set idx \<subseteq> set (resolved st) \<union> set path
    \<Longrightarrow> step idx rm H0 path st st ms"
  by (simp add: step_def)

lemma step_trans:
  "step idx rm H0 path st st1 m1 \<Longrightarrow> step idx rm H0 path st1 st2 m2
    \<Longrightarrow> step idx rm H0 path st st2 (m1 \<union> m2)"
  unfolding step_def by blast

lemma inv_push: "resolver_inv idx rm H0 path st \<Longrightarrow> resolver_inv idx rm H0 (k # path) st"
  unfolding resolver_inv_def closed_def by auto

lemma map_of_None_fst: "map_of idx k = None \<Longrightarrow> k \<notin> fst ` set idx"
  by (simp add: map_of_eq_None_iff)

lemma key_of_walked [simp]: "key_of (walked_item idx rm it) = key_of it"
  by (simp add: walked_item_def key_of_def)

lemma walked_item_update:
  "(walked_item idx rm it)\<lparr>item_fields := fs\<rparr> = it\<lparr>item_fields := fs\<rparr>"
  by (simp add: walked_item_def)

lemma item_step:
  assumes inv: "resolver_inv idx rm H0 path st"
    and k: "map_of idx k = Some a" and fresh: "k \<notin> set (resolved st)"
    and off: "k \<notin> set path"
    and IH: "resolver_inv idx rm H0 (k # path) st \<Longrightarrow>
             step idx rm H0 (k # path) st (snd (resolveMapping idx rm (k # path) (item_fields (H0 ! a)) st))
               (markersMapping (item_fields (H0 ! a)))"
    and fs: "item_fields (heap st ! a) = item_fields (H0 ! a)"
    and a: "a < length (heap st)"
  shows "step idx rm H0 path st (resolveItem idx rm path k a st) {k}"
proof -
  let ?fs = "item_fields (H0 ! a)"
  obtain fs' st1 where r: "resolveMapping idx rm (k # path) ?fs st = (fs', st1)"
    by (cases "resolveMapping idx rm (k # path) ?fs st")
  from resolve_values(3) [of idx rm "k # path" ?fs st] r
  have fs': "fs' = substMapping idx rm ?fs" by simp
  from IH [OF inv_push [OF inv]] r
  have s1: "step idx rm H0 (k # path) st st1 (markersMapping ?fs)" by simp
  let ?st' = "st1\<lparr>heap := (heap st1)[a := (heap st1 ! a)\<lparr>item_fields := fs'\<rparr>],
                   resolved := k # resolved st1\<rparr>"
  have res: "resolveItem idx rm path k a st = ?st'"
    using a fs r by simp
  from inv have cons: "consistent idx H0" by (simp add: resolver_inv_def)
  from cons k have aH: "a < length H0" and ka: "key_of (H0 ! a) = k"
    unfolding consistent_def by blast+
  from s1 have ok1: "heap_ok idx rm H0 st1" and cl1: "closed idx H0 (k # path) st1"
    and mono: "set (resolved st) \<subseteq> set (resolved st1)"
    and new: "set (resolved st1) \<inter> set (k # path) \<subseteq> set (resolved st)"
    and dist1: "distinct (resolved st1)" and sub1: "set (resolved st1) \<subseteq> fst ` set idx"
    and ms: "markersMapping ?fs \<inter> fst ` set idx \<subseteq> set (resolved st1) \<union> set (k # path)"
    by (auto simp: step_def resolver_inv_def)
  have len: "length (heap ?st') = length H0"
    using ok1 by (simp add: heap_ok_def)
  have "heap ?st' ! b = (if is_walked idx H0 (resolved ?st') b then walked_item idx rm (H0 ! b) else H0 ! b)"
    if b: "b < length H0" for b
  proof (cases "b = a")
    case True
    have "heap st1 ! a = walked_item idx rm (H0 ! a) \<or> heap st1 ! a = H0 ! a"
      using ok1 aH by (auto simp: heap_ok_def)
    then have "(heap st1 ! a)\<lparr>item_fields := fs'\<rparr> = walked_item idx rm (H0 ! a)"
      using fs' by (auto simp: walked_item_def)
    moreover have "is_walked idx H0 (resolved ?st') a"
      using k ka by (simp add: is_walked_def)
    ultimately show ?thesis using True aH ok1 by (simp add: heap_ok_def)
  next
    case False
    have "is_walked idx H0 (resolved ?st') b = is_walked idx H0 (resolved st1) b"
      using False k by (auto simp: is_walked_def)
    then show ?thesis using False b ok1 by (simp add: heap_ok_def)
  qed
  with len have ok': "heap_ok idx rm H0 ?st'" by (simp add: heap_ok_def)
  have cl': "closed idx H0 path ?st'"
    unfolding closed_def
  proof (intro ballI allI impI)
    fix k2 a2 assume k2: "k2 \<in> set (resolved ?st')" and a2: "map_of idx k2 = Some a2"
    show "markersMapping (item_fields (H0 ! a2)) \<inter> fst ` set idx \<subseteq> set (resolved ?st') \<union> set path"
    proof (cases "k2 = k")
      case True
      with a2 k have "a2 = a" by simp
      with ms show ?thesis by auto
    next
      case False
      with k2 have "k2 \<in> set (resolved st1)" by simp
      with cl1 a2 have "markersMapping (item_fields (H0 ! a2)) \<inter> fst ` set idx
          \<subseteq> set (resolved st1) \<union> set (k # path)"
        unfolding closed_def by blast
      then show ?thesis by auto
    qed
  qed
  from new fresh have k1: "k \<notin> set (resolved st1)" by auto
  from k have kdom: "k \<in> fst ` set idx"
    by (auto dest!: map_of_SomeD intro!: rev_image_eqI)
  have "set (resolved ?st') \<inter> set path \<subseteq> set (resolved st)"
    using new off by auto
  then have "step idx rm H0 path st ?st' {k}"
    unfolding step_def resolver_inv_def using cons ok' cl' mono k1 dist1 sub1 kdom by auto
  with res show ?thesis by simp
qed

lemma unwalked_fields:
  assumes "resolver_inv idx rm H0 path st" and "map_of idx k = Some a" and "k \<notin> set (resolved st)"
  shows "a < length (heap st) \<and> heap st ! a = H0 ! a"
proof -
  from assms(1) have cons: "consistent idx H0" and ok: "heap_ok idx rm H0 st"
    by (simp_all add: resolver_inv_def)
  from cons assms(2) have aH: "a < length H0" and ka: "key_of (H0 ! a) = k"
    unfolding consistent_def by blast+
  from ka assms(3) have "\<not> is_walked idx H0 (resolved st) a"
    by (simp add: is_walked_def)
  with ok aH show ?thesis by (simp add: heap_ok_def)
qed

lemma resolve_steps:
  "resolver_inv idx rm H0 path st \<Longrightarrow>
     step idx rm H0 path st (snd (resolveValue idx rm path v st)) (markers v)"
  "resolver_inv idx rm H0 path st \<Longrightarrow>
     step idx rm H0 path st (snd (resolveSeq idx rm path vs st)) (markersSeq vs)"
  "resolver_inv idx rm H0 path st \<Longrightarrow>
     step idx rm H0 path st (snd (resolveMapping idx rm path m st)) (markersMapping m)"
  "resolver_inv idx rm H0 path st \<Longrightarrow> map_of idx k = Some a \<Longrightarrow> k \<notin> set (resolved st) \<Longrightarrow>
     k \<notin> set path \<Longrightarrow> step idx rm H0 path st (resolveItem idx rm path k a st) {k}"
proof (induction idx rm path v st and idx rm path vs st and idx rm path m st and idx rm path k a st
    rule: resolveValue_resolveSeq_resolveMapping_resolveItem.induct)
  case (1 idx rm path x st)
  then show ?case by (simp add: step_refl)
next
  case (2 idx rm path a st)
  then show ?case by (simp add: step_refl)
next
  case (3 idx rm path k i st)
  show ?case
  proof (cases "map_of idx (k, i)")
    case None
    then have "(k, i) \<notin> fst ` set idx" by (rule map_of_None_fst)
    with None "3.prems" show ?thesis by (simp add: step_refl)
  next
    case (Some a)
    show ?thesis
    proof (cases "(k, i) \<in> set path \<or> (k, i) \<in> set (resolved st)")
      case True
      with Some "3.prems" show ?thesis by (auto intro!: step_refl)
    next
      case False
      from "3.IH" [OF Some False "3.prems" Some] False
      have "step idx rm H0 path st (resolveItem idx rm path (k, i) a st) {(k, i)}" by simp
      with Some False show ?thesis by simp
    qed
  qed
next
  case (4 idx rm path vs st)
  then show ?case by (simp add: case_prod_beta)
next
  case (5 idx rm path m st)
  then show ?case by (simp add: case_prod_beta)
next
  case (6 idx rm path st)
  then show ?case by (simp add: step_refl)
next
  case (7 idx rm path v vs st)
  obtain r st1 where r: "resolveValue idx rm path v st = (r, st1)"
    by (cases "resolveValue idx rm path v st")
  from "7.IH"(1) [OF "7.prems"] r
  have s1: "step idx rm H0 path st st1 (markers v)" by simp
  then have "resolver_inv idx rm H0 path st1" by (simp add: step_def)
  from "7.IH"(2) [OF r [symmetric] this]
  have s2: "step idx rm H0 path st1 (snd (resolveSeq idx rm path vs st1)) (markersSeq vs)" .
  from step_trans [OF s1 s2] r show ?case by (simp add: case_prod_beta)
next
  case (8 idx rm path st)
  then show ?case by (simp add: step_refl)
next
  case (9 idx rm path n v m st)
  obtain r st1 where r: "resolveValue idx rm path v st = (r, st1)"
    by (cases "resolveValue idx rm path v st")
  from "9.IH"(1) [OF "9.prems"] r
  have s1: "step idx rm H0 path st st1 (markers v)" by simp
  then have "resolver_inv idx rm H0 path st1" by (simp add: step_def)
  from "9.IH"(2) [OF r [symmetric] this]
  have s2: "step idx rm H0 path st1 (snd (resolveMapping idx rm path m st1)) (markersMapping m)" .
  from step_trans [OF s1 s2] r show ?case by (simp add: case_prod_beta)
next
  case (10 idx rm path k a st)
  from unwalked_fields [OF "10.prems"(1-3)]
  have a: "a < length (heap st)" and eq: "heap st ! a = H0 ! a" by simp_all
  show ?case
  proof (rule item_step [OF "10.prems"])
    assume "resolver_inv idx rm H0 (k # path) st"
    from "10.IH" [OF a this] eq
    show "step idx rm H0 (k # path) st
            (snd (resolveMapping idx rm (k # path) (item_fields (H0 ! a)) st))
            (markersMapping (item_fields (H0 ! a)))" by simp
  next
    show "item_fields (heap st ! a) = item_fields (H0 ! a)" using eq by simp
  next
    show "a < length (heap st)" by (rule a)
  qed
qed

lemma map_of_first:
  "a \<in> set xs \<Longrightarrow> inj_on f (set xs) \<Longrightarrow> map_of (map (\<lambda>a. (f a, a)) xs @ ys) (f a) = Some a"
proof (induction xs)
  case Nil
  then show ?case by simp
next
  case (Cons x xs)
  show ?case
  proof (cases "x = a")
    case True
    then show ?thesis by simp
  next
    case False
    with Cons.prems have "a \<in> set xs" and "inj_on f (set xs)" and "f x \<noteq> f a"
      by (auto simp: inj_on_def)
    with Cons.IH show ?thesis by simp
  qed
qed

lemma index_top:
  assumes "distinct_items p" and "a \<in> set (items p)"
  shows "map_of (buildIndex p) (key_of (store p ! a)) = Some a"
proof -
  from assms(1) have "filter (\<lambda>a. a < length (store p)) (items p) = items p"
    by (simp add: distinct_items_def)
  then have "buildIndex p =
      map (\<lambda>a. (key_of (store p ! a), a)) (items p)
      @ map (\<lambda>a. (key_of (store p ! a), a))
          (filter (\<lambda>a. a < length (store p)) (concat (map snd (includes_table p))))"
    by (simp add: buildIndex_def)
  moreover from assms have "inj_on (\<lambda>a. key_of (store p ! a)) (set (items p))"
    by (simp add: distinct_items_def)
  ultimately show ?thesis
    using map_of_first [of a "items p" "\<lambda>a. key_of (store p ! a)"] assms(2) by simp
qed

lemma index_consistent: "consistent (buildIndex p) (store p)"
  unfolding consistent_def buildIndex_def by (auto dest!: map_of_SomeD)

lemma inv_start: "resolver_inv (buildIndex p) rm (store p) [] \<lparr>heap = store p, resolved = []\<rparr>"
  by (simp add: resolver_inv_def index_consistent heap_ok_def is_walked_def closed_def)

lemma top_step:
  assumes "resolver_inv idx rm H0 [] st" and "a < length H0"
    and "map_of idx (key_of (H0 ! a)) = Some a"
  shows "step idx rm H0 [] st (resolveTop idx rm a st) {key_of (H0 ! a)}"
proof -
  from assms(1) have ok: "heap_ok idx rm H0 st" by (simp add: resolver_inv_def)
  with assms(2) have a: "a < length (heap st)" and k: "key_of (heap st ! a) = key_of (H0 ! a)"
    by (auto simp: heap_ok_def)
  show ?thesis
  proof (cases "key_of (H0 ! a) \<in> set (resolved st)")
    case True
    with a k assms(1) show ?thesis by (auto simp: resolveTop_def intro!: step_refl)
  next
    case False
    from a k False
    have "resolveTop idx rm a st = resolveItem idx rm [] (key_of (H0 ! a)) a st"
      by (simp add: resolveTop_def Let_def del: resolveItem.simps)
    with resolve_steps(4) [OF assms(1) assms(3) False] show ?thesis by simp
  qed
qed

lemma fold_top_step:
  assumes "\<forall>a \<in> set as. a < length H0 \<and> map_of idx (key_of (H0 ! a)) = Some a"
    and "resolver_inv idx rm H0 [] st"
  shows "step idx rm H0 [] st (fold (resolveTop idx rm) as st) ((\<lambda>a. key_of (H0 ! a)) ` set as)"
  using assms
proof (induction as arbitrary: st)
  case Nil
  then show ?case by (simp add: step_refl)
next
  case (Cons a as)
  from Cons.prems have s1: "step idx rm H0 [] st (resolveTop idx rm a st) {key_of (H0 ! a)}"
    by (simp add: top_step)
  then have "resolver_inv idx rm H0 [] (resolveTop idx rm a st)" by (simp add: step_def)
  with Cons.IH Cons.prems(1)
  have "step idx rm H0 [] (resolveTop idx rm a st) (fold (resolveTop idx rm) as (resolveTop idx rm a st))
          ((\<lambda>a. key_of (H0 ! a)) ` set as)" by simp
  from step_trans [OF s1 this] show ?case by simp
qed

lemma resolveAll_step:
  assumes "distinct_items p"
  shows "step (buildIndex p) rm (store p) [] \<lparr>heap = store p, resolved = []\<rparr> (resolveAll p rm)
           ((\<lambda>a. key_of (store p ! a)) ` set (items p))"
  unfolding resolveAll_def
proof (rule fold_top_step [OF _ inv_start])
  show "\<forall>a\<in>set (items p). a < length (store p)
          \<and> map_of (buildIndex p) (key_of (store p ! a)) = Some a"
    using assms index_top [OF assms] by (auto simp: distinct_items_def)
qed

lemma reachable_resolved:
  assumes d: "distinct_items p" and r: "reachable p a"
  shows "a < length (store p) \<and> map_of (buildIndex p) (key_of (store p ! a)) = Some a
         \<and> key_of (store p ! a) \<in> set (resolved (resolveAll p rm))"
  using r
proof (induction rule: reachable.induct)
  case (top a)
  from resolveAll_step [OF d, of rm] top index_top [OF d top]
  have "key_of (store p ! a) \<in> set (resolved (resolveAll p rm))"
    by (auto simp: step_def dest: map_of_SomeD intro!: rev_image_eqI)
  with top d index_top [OF d top] show ?case by (simp add: distinct_items_def)
next
  case (link a k b)
  from index_consistent [of p] link.hyps(3)
  have b: "b < length (store p)" and kb: "key_of (store p ! b) = k"
    unfolding consistent_def by blast+
  from resolveAll_step [OF d, of rm]
  have "closed (buildIndex p) (store p) [] (resolveAll p rm)"
    by (simp add: step_def resolver_inv_def)
  with link.IH link.hyps(2)
  have "k \<in> fst ` set (buildIndex p) \<longrightarrow> k \<in> set (resolved (resolveAll p rm))"
    unfolding closed_def by auto
  moreover from link.hyps(3) have "k \<in> fst ` set (buildIndex p)"
    by (auto dest!: map_of_SomeD intro!: rev_image_eqI)
  ultimately show ?case using b kb link.hyps(3) by simp
qed

lemma resolve_reachable:
  assumes "distinct_items p" and "reachable p a"
  shows "store (resolve p rm) ! a = walked_item (buildIndex p) rm (store p ! a)"
proof -
  from resolveAll_step [OF assms(1), of rm]
  have "heap_ok (buildIndex p) rm (store p) (resolveAll p rm)"
    by (simp add: step_def resolver_inv_def)
  with reachable_resolved [OF assms, of rm] show ?thesis
    by (simp add: heap_ok_def is_walked_def resolve_def)
qed

lemma resolve_length: "distinct_items p \<Longrightarrow> length (store (resolve p rm)) = length (store p)"
  using resolveAll_step [of p rm]
  by (simp add: step_def resolver_inv_def heap_ok_def resolve_def)

lemma resolve_other:
  assumes "distinct_items p" and "a < length (store p)"
  shows "store (resolve p rm) ! a = walked_item (buildIndex p) rm (store p ! a)
         \<or> store (resolve p rm) ! a = store p ! a"
  using resolveAll_step [OF assms(1), of rm] assms(2)
  by (auto simp: step_def resolver_inv_def heap_ok_def resolve_def)

lemma map_of_subst:
  "map_of fs n = Some v \<Longrightarrow> substValue idx rm v = Some v' \<Longrightarrow>
     map_of (substMapping idx rm fs) n = Some v'"
proof (induction fs)
  case Nil
  then show ?case by simp
next
  case (Cons e fs)
  obtain n1 v1 where e: "e = (n1, v1)" by (cases e)
  show ?case
  proof (cases "n1 = n")
    case True
    with Cons.prems e show ?thesis by simp
  next
    case False
    with Cons e show ?thesis by (simp split: option.splits)
  qed
qed

lemma map_of_markers: "map_of fs n = Some v \<Longrightarrow> markers v \<subseteq> markersMapping fs"
proof (induction fs)
  case Nil
  then show ?case by simp
next
  case (Cons e fs)
  then show ?case by (cases e) (auto split: if_splits)
qed

lemma substSeq_append: "substSeq idx rm (xs @ ys) = substSeq idx rm xs @ substSeq idx rm ys"
  by (induction xs) (simp_all split: option.splits)

lemma substMapping_append:
  "substMapping idx rm (xs @ ys) = substMapping idx rm xs @ substMapping idx rm ys"
proof (induction xs)
  case Nil
  then show ?case by simp
next
  case (Cons e xs)
  then show ?case by (cases e) (simp split: option.splits)
qed

lemma resolved_bound:
  assumes "distinct_items p"
  shows "length (resolved (resolveAll p rm)) \<le> length (buildIndex p)"
proof -
  from resolveAll_step [OF assms, of rm]
  have d: "distinct (resolved (resolveAll p rm))"
    and s: "set (resolved (resolveAll p rm)) \<subseteq> fst ` set (buildIndex p)"
    by (simp_all add: step_def resolver_inv_def)
  from d have "length (resolved (resolveAll p rm)) = card (set (resolved (resolveAll p rm)))"
    by (simp add: distinct_card)
  also from s have "\<dots> \<le> card (fst ` set (buildIndex p))"
    by (intro card_mono) auto
  also have "\<dots> \<le> length (buildIndex p)"
    by (metis card_image_le card_length le_trans List.finite_set)
  finally show ?thesis .
qed

lemma subst_no_markers:
  "substValue idx True v = Some v' \<Longrightarrow> markers v' = {}"
  "markersSeq (substSeq idx True vs) = {}"
  "markersMapping (substMapping idx True m) = {}"
  by (induction idx "True" v and idx "True" vs and idx "True" m
      arbitrary: v' rule: substValue_substSeq_substMapping.induct)
     (auto split: option.splits)

text \<open>
  C3. For a payload in which an item A of \<open>items\<close> links to B and B links back to A,
  resolution returns (it is a total function, whose recursion descends only into
  identities that are not on the active path): the field of A holds the reference to B,
  the field of B holds the reference to the object of A itself, a marker to A met while A
  is on the active path links to A without a descent or a change of state, and the
  number of item expansions of the whole resolution is at most the number of index
  entries.
\<close>

theorem cycle_resolves:
  assumes "distinct_items p" and "a \<in> set (items p)"
    and "map_of (item_fields (store p ! a)) n = Some (Marker kb ib)"
    and "map_of (buildIndex p) (kb, ib) = Some b"
    and "map_of (item_fields (store p ! b)) m
           = Some (Marker (sys_type (store p ! a)) (sys_id (store p ! a)))"
  shows "map_of (item_fields (store (resolve p rm) ! a)) n = Some (Ref b)
         \<and> map_of (item_fields (store (resolve p rm) ! b)) m = Some (Ref a)
         \<and> resolveValue (buildIndex p) rm (key_of (store p ! a) # path)
               (Marker (sys_type (store p ! a)) (sys_id (store p ! a))) st = (Some (Ref a), st)
         \<and> length (resolved (resolveAll p rm)) \<le> length (buildIndex p)"
proof -
  let ?idx = "buildIndex p"
  have ra: "reachable p a" using assms(2) by (rule reachable.top)
  from map_of_markers [OF assms(3)] have "(kb, ib) \<in> markersMapping (item_fields (store p ! a))"
    by simp
  from reachable.link [OF ra this assms(4)] have rb: "reachable p b" .
  have ia: "map_of ?idx (sys_type (store p ! a), sys_id (store p ! a)) = Some a"
    using index_top [OF assms(1,2)] by (simp add: key_of_def)
  have 1: "map_of (item_fields (store (resolve p rm) ! a)) n = Some (Ref b)"
    using resolve_reachable [OF assms(1) ra, of rm] map_of_subst [OF assms(3), of ?idx rm "Ref b"] assms(4)
    by (simp add: walked_item_def)
  have 2: "map_of (item_fields (store (resolve p rm) ! b)) m = Some (Ref a)"
    using resolve_reachable [OF assms(1) rb, of rm] map_of_subst [OF assms(5), of ?idx rm "Ref a"] ia
    by (simp add: walked_item_def)
  have 3: "resolveValue ?idx rm (key_of (store p ! a) # path)
               (Marker (sys_type (store p ! a)) (sys_id (store p ! a))) st = (Some (Ref a), st)"
    using ia by (simp add: key_of_def)
  from 1 2 3 resolved_bound [OF assms(1), of rm] show ?thesis by simp
qed

theorem cycle_resolves_witness:
  "distinct_items cyclic_payload \<and> 0 \<in> set (items cyclic_payload)
   \<and> map_of (item_fields (store (resolve cyclic_payload True) ! 0)) ''friend'' = Some (Ref 1)
   \<and> map_of (item_fields (store (resolve cyclic_payload True) ! 1)) ''friend'' = Some (Ref 0)"
proof -
  have d: "distinct_items cyclic_payload"
    by (simp add: distinct_items_def cyclic_payload_def)
  have a: "0 \<in> set (items cyclic_payload)"
    by (simp add: cyclic_payload_def)
  have n: "map_of (item_fields (store cyclic_payload ! 0)) ''friend'' = Some (Marker ''Entry'' ''B'')"
    by (simp add: cyclic_payload_def)
  have b: "map_of (buildIndex cyclic_payload) (''Entry'', ''B'') = Some 1"
    by (simp add: buildIndex_def cyclic_payload_def key_of_def)
  have m: "map_of (item_fields (store cyclic_payload ! 1)) ''friend''
             = Some (Marker (sys_type (store cyclic_payload ! 0)) (sys_id (store cyclic_payload ! 0)))"
    by (simp add: cyclic_payload_def)
  from cycle_resolves [OF d a n b m, of True] d a show ?thesis by simp
qed

text \<open>
  C4. For a marker that the index does not match: the walk returns, removing the slot
  under \<open>removeUnresolved = true\<close> and keeping the marker otherwise, without a change of
  state; the fields of every reachable item after resolution are the substitution of its
  fields before; in that substitution, with \<open>removeUnresolved = true\<close> the slot of the
  marker is absent from its field mapping or locale mapping and from its sequence, and
  the marker occurs nowhere in the resolved fields, and with \<open>removeUnresolved = false\<close>
  the marker stays in its place as it is.
\<close>

theorem unresolved_policy:
  assumes "distinct_items p" and "reachable p a" and "map_of (buildIndex p) (k, i) = None"
  shows "resolveValue (buildIndex p) True path (Marker k i) st = (None, st)
         \<and> resolveValue (buildIndex p) False path (Marker k i) st = (Some (Marker k i), st)
         \<and> item_fields (store (resolve p rm) ! a)
             = substMapping (buildIndex p) rm (item_fields (store p ! a))
         \<and> substMapping (buildIndex p) True (fs1 @ (n, Marker k i) # fs2)
             = substMapping (buildIndex p) True fs1 @ substMapping (buildIndex p) True fs2
         \<and> substSeq (buildIndex p) True (xs @ Marker k i # ys)
             = substSeq (buildIndex p) True xs @ substSeq (buildIndex p) True ys
         \<and> (k, i) \<notin> markersMapping (item_fields (store (resolve p True) ! a))
         \<and> substMapping (buildIndex p) False (fs1 @ (n, Marker k i) # fs2)
             = substMapping (buildIndex p) False fs1 @ (n, Marker k i)
                 # substMapping (buildIndex p) False fs2
         \<and> substSeq (buildIndex p) False (xs @ Marker k i # ys)
             = substSeq (buildIndex p) False xs @ Marker k i # substSeq (buildIndex p) False ys"
proof -
  let ?idx = "buildIndex p"
  have 1: "item_fields (store (resolve p rm) ! a) = substMapping ?idx rm (item_fields (store p ! a))"
    for rm using resolve_reachable [OF assms(1,2), of rm] by (simp add: walked_item_def)
  have 2: "(k, i) \<notin> markersMapping (item_fields (store (resolve p True) ! a))"
    by (simp add: 1 subst_no_markers)
  from 1 2 assms(3) show ?thesis
    by (simp add: substMapping_append substSeq_append)
qed

theorem unresolved_policy_witness:
  "item_fields (store (resolve unresolved_payload True) ! 0)
     = [(''title'', Flat (JStr ''first'')), (''tags'', Seq [Flat (JStr ''x'')]),
        (''pet'', LocaleMap [(''de-DE'', Flat (JStr ''y''))])]
   \<and> item_fields (store (resolve unresolved_payload False) ! 0)
     = item_fields (store unresolved_payload ! 0)"
proof -
  have d: "distinct_items unresolved_payload"
    by (simp add: distinct_items_def unresolved_payload_def)
  have r: "reachable unresolved_payload 0"
    by (rule reachable.top) (simp add: unresolved_payload_def)
  have idx: "buildIndex unresolved_payload = [((''Entry'', ''e1''), 0)]"
    by (simp add: buildIndex_def unresolved_payload_def key_of_def)
  have u: "map_of (buildIndex unresolved_payload) (''Entry'', ''gone'') = None"
    by (simp add: idx)
  have f: "item_fields (store unresolved_payload ! 0)
      = [(''title'', Flat (JStr ''first'')),
         (''author'', Marker ''Entry'' ''gone''),
         (''tags'', Seq [Marker ''Entry'' ''gone'', Flat (JStr ''x'')]),
         (''pet'', LocaleMap [(''en-US'', Marker ''Entry'' ''gone''), (''de-DE'', Flat (JStr ''y''))])]"
    by (simp add: unresolved_payload_def)
  from unresolved_policy [OF d r u, where rm = True]
  have t: "item_fields (store (resolve unresolved_payload True) ! 0)
      = substMapping (buildIndex unresolved_payload) True (item_fields (store unresolved_payload ! 0))"
    by blast
  from unresolved_policy [OF d r u, where rm = False]
  have n: "item_fields (store (resolve unresolved_payload False) ! 0)
      = substMapping (buildIndex unresolved_payload) False (item_fields (store unresolved_payload ! 0))"
    by blast
  show ?thesis unfolding t n f idx by simp
qed

text \<open>
  C5. For two markers of the same identity, which the index matches with the item at
  address \<open>b\<close>, in fields of reachable items: after resolution both fields hold the
  reference to the one object at \<open>b\<close>, which has that identity and whose fields are
  resolved.
\<close>

theorem link_shared:
  assumes "distinct_items p" and "reachable p a1" and "reachable p a2"
    and "map_of (item_fields (store p ! a1)) n1 = Some (Marker k i)"
    and "map_of (item_fields (store p ! a2)) n2 = Some (Marker k i)"
    and "map_of (buildIndex p) (k, i) = Some b"
  shows "map_of (item_fields (store (resolve p rm) ! a1)) n1 = Some (Ref b)
         \<and> map_of (item_fields (store (resolve p rm) ! a2)) n2 = Some (Ref b)
         \<and> b < length (store (resolve p rm))
         \<and> key_of (store (resolve p rm) ! b) = (k, i)
         \<and> item_fields (store (resolve p rm) ! b)
             = substMapping (buildIndex p) rm (item_fields (store p ! b))
         \<and> item_fields (store (resolve p rm) ! a1)
             = substMapping (buildIndex p) rm (item_fields (store p ! a1))
         \<and> substValue (buildIndex p) rm (Marker k i) = Some (Ref b)"
proof -
  let ?idx = "buildIndex p"
  have sv: "substValue ?idx rm (Marker k i) = Some (Ref b)"
    using assms(6) by simp
  from map_of_markers [OF assms(4)] have "(k, i) \<in> markersMapping (item_fields (store p ! a1))"
    by simp
  from reachable.link [OF assms(2) this assms(6)] have rb: "reachable p b" .
  from index_consistent [of p] assms(6)
  have b: "b < length (store p)" and kb: "key_of (store p ! b) = (k, i)"
    unfolding consistent_def by blast+
  have 1: "map_of (item_fields (store (resolve p rm) ! a1)) n1 = Some (Ref b)"
    using resolve_reachable [OF assms(1,2), of rm] map_of_subst [OF assms(4) sv]
    by (simp add: walked_item_def)
  have 2: "map_of (item_fields (store (resolve p rm) ! a2)) n2 = Some (Ref b)"
    using resolve_reachable [OF assms(1,3), of rm] map_of_subst [OF assms(5) sv]
    by (simp add: walked_item_def)
  have 3: "b < length (store (resolve p rm))"
    using b resolve_length [OF assms(1), of rm] by simp
  have 4: "key_of (store (resolve p rm) ! b) = (k, i)"
    using resolve_reachable [OF assms(1) rb, of rm] kb by simp
  have 5: "item_fields (store (resolve p rm) ! b) = substMapping ?idx rm (item_fields (store p ! b))"
    using resolve_reachable [OF assms(1) rb, of rm] by (simp add: walked_item_def)
  have 6: "item_fields (store (resolve p rm) ! a1) = substMapping ?idx rm (item_fields (store p ! a1))"
    using resolve_reachable [OF assms(1,2), of rm] by (simp add: walked_item_def)
  from 1 2 3 4 5 6 sv show ?thesis by simp
qed

theorem link_shared_witness:
  "map_of (item_fields (store (resolve shared_payload False) ! 0)) ''animal'' = Some (Ref 2)
   \<and> map_of (item_fields (store (resolve shared_payload False) ! 1)) ''pet'' = Some (Ref 2)
   \<and> store (resolve shared_payload False) ! 2
       = \<lparr>sys_type = ''Animal'', sys_id = ''oink'',
          item_fields = [(''name'', Flat (JStr ''Pig'')), (''friend'', Marker ''Animal'' ''groundhog'')]\<rparr>"
proof -
  have d: "distinct_items shared_payload"
    by (simp add: distinct_items_def shared_payload_def key_of_def)
  have r1: "reachable shared_payload 0"
    by (rule reachable.top) (simp add: shared_payload_def)
  have r2: "reachable shared_payload 1"
    by (rule reachable.top) (simp add: shared_payload_def)
  have idx: "buildIndex shared_payload
      = [((''Entry'', ''e1''), 0), ((''Entry'', ''e2''), 1), ((''Animal'', ''oink''), 2)]"
    by (simp add: buildIndex_def shared_payload_def key_of_def)
  have n1: "map_of (item_fields (store shared_payload ! 0)) ''animal'' = Some (Marker ''Animal'' ''oink'')"
    by (simp add: shared_payload_def)
  have n2: "map_of (item_fields (store shared_payload ! 1)) ''pet'' = Some (Marker ''Animal'' ''oink'')"
    by (simp add: shared_payload_def)
  have b: "map_of (buildIndex shared_payload) (''Animal'', ''oink'') = Some 2"
    by (simp add: idx)
  have s: "store shared_payload ! 2 = \<lparr>sys_type = ''Animal'', sys_id = ''oink'',
          item_fields = [(''name'', Flat (JStr ''Pig'')), (''friend'', Marker ''Animal'' ''groundhog'')]\<rparr>"
    by (simp add: shared_payload_def)
  note L = link_shared [OF d r1 r2 n1 n2 b, of False]
  from L have 1: "map_of (item_fields (store (resolve shared_payload False) ! 0)) ''animal'' = Some (Ref 2)"
    by blast
  from L have 2: "map_of (item_fields (store (resolve shared_payload False) ! 1)) ''pet'' = Some (Ref 2)"
    by blast
  from L have 3: "key_of (store (resolve shared_payload False) ! 2) = (''Animal'', ''oink'')"
    by blast
  from L have 4: "item_fields (store (resolve shared_payload False) ! 2)
          = substMapping (buildIndex shared_payload) False (item_fields (store shared_payload ! 2))"
    by blast
  have 5: "substMapping (buildIndex shared_payload) False (item_fields (store shared_payload ! 2))
          = [(''name'', Flat (JStr ''Pig'')), (''friend'', Marker ''Animal'' ''groundhog'')]"
    by (simp add: idx s)
  have "store (resolve shared_payload False) ! 2
       = \<lparr>sys_type = ''Animal'', sys_id = ''oink'',
          item_fields = [(''name'', Flat (JStr ''Pig'')), (''friend'', Marker ''Animal'' ''groundhog'')]\<rparr>"
    using 3 4 5 by (cases "store (resolve shared_payload False) ! 2") (simp add: key_of_def)
  with 1 2 show ?thesis by simp
qed

end
